theory Spec2Isabelle
  imports Main
begin

section \<open>Values crossing the Property boundary\<close>

text \<open>
  \<^verbatim>\<open>ChildAtIndex(index interface{})\<close> receives a string from \<^verbatim>\<open>Dot\<close> and an
  \<^verbatim>\<open>int\<close> from \<^verbatim>\<open>At\<close>. Go's \<^verbatim>\<open>int\<close> is 32 or 64 bits wide depending on the
  platform; the navigator does no arithmetic on the index, so it is an \<open>int\<close> here.
\<close>

datatype key = Name string | Index int

text \<open>The two sentinel errors of package \<^verbatim>\<open>spec\<close> that the navigator wraps with \<^verbatim>\<open>%w\<close>.\<close>

datatype sentinel = ErrInvalidPath | ErrNoTarget

text \<open>
  A Go \<^verbatim>\<open>error\<close> held by the navigator is either built by \<^verbatim>\<open>fmt.Errorf\<close> around a
  sentinel (the string is the text that follows the sentinel's own text), or it is an error
  that a Property or an Event handed back, kept as it came.
\<close>

datatype 'e error = Errorf sentinel string | Raised 'e

text \<open>The verb \<^verbatim>\<open>%d\<close> of \<^verbatim>\<open>fmt\<close>: decimal digits, with a minus sign below zero.\<close>

fun digits :: "nat \<Rightarrow> string" where
  "digits n =
     (if n < 10 then [char_of (48 + n)]
      else digits (n div 10) @ [char_of (48 + n mod 10)])"

declare digits.simps [simp del]

definition fmt_d :: "int \<Rightarrow> string" where
  "fmt_d i = (if i < 0 then CHR ''-'' # digits (nat (- i)) else digits (nat i))"

definition quoted :: "string \<Rightarrow> string" where
  "quoted s = [CHR 0x27] @ s @ [CHR 0x27]"

section \<open>The Property capabilities and the record of their invocations\<close>

text \<open>
  The interface \<^verbatim>\<open>Property\<close> and the type \<^verbatim>\<open>Event\<close> are declared outside the file
  under study, so their methods are parameters. Each one reads and may change the tree,
  which is the state \<open>'w\<close>; \<open>'p\<close> are the references to properties, \<open>'v\<close> the values
  handed to a mutation, \<open>'c\<close> the criteria of \<^verbatim>\<open>FindChild\<close>, \<open>'cb\<close> the callbacks of
  \<^verbatim>\<open>ForEachChild\<close>, \<open>'ev\<close> the events, \<open>'evs\<close> the flattened event sequences and
  \<open>'e\<close> the errors of the collaborators.

  In Go, \<^verbatim>\<open>ChildAtIndex\<close>, \<^verbatim>\<open>Add\<close>, \<^verbatim>\<open>Replace\<close> and \<^verbatim>\<open>Delete\<close> return a value and an
  error, and the navigator tests the error first and reads the value only when the error is
  \<^verbatim>\<open>nil\<close>: the pair is a sum here, \<open>Inl\<close> the error. The event of a mutation may be
  \<^verbatim>\<open>nil\<close> (\<open>None\<close>), and \<^verbatim>\<open>FindChild\<close> returns \<^verbatim>\<open>nil\<close> (\<open>None\<close>) when no child
  matches. \<^verbatim>\<open>Attribute().Path()\<close> is one capability. A criterion and a callback are
  opaque values that the node interprets; a callback is taken not to call back into the
  navigator that runs it.
\<close>

record ('p, 'v, 'c, 'cb, 'ev, 'evs, 'e, 'w) property_caps =
  prop_ChildAtIndex :: "'p \<Rightarrow> key \<Rightarrow> 'w \<Rightarrow> ('e + 'p) \<times> 'w"
  prop_FindChild :: "'p \<Rightarrow> 'c \<Rightarrow> 'w \<Rightarrow> 'p option \<times> 'w"
  prop_ForEachChild :: "'p \<Rightarrow> 'cb \<Rightarrow> 'w \<Rightarrow> 'e option \<times> 'w"
  prop_AttributePath :: "'p \<Rightarrow> 'w \<Rightarrow> string \<times> 'w"
  prop_Add :: "'p \<Rightarrow> 'v \<Rightarrow> 'w \<Rightarrow> ('e + 'ev option) \<times> 'w"
  prop_Replace :: "'p \<Rightarrow> 'v \<Rightarrow> 'w \<Rightarrow> ('e + 'ev option) \<times> 'w"
  prop_Delete :: "'p \<Rightarrow> 'w \<Rightarrow> ('e + 'ev option) \<times> 'w"
  prop_Notify :: "'p \<Rightarrow> 'evs \<Rightarrow> 'w \<Rightarrow> 'e option \<times> 'w"
  event_ToEvents :: "'ev \<Rightarrow> 'w \<Rightarrow> 'evs \<times> 'w"

text \<open>One entry per invocation of a capability: the receiver, the arguments, the outcome.\<close>

datatype ('p, 'v, 'c, 'cb, 'ev, 'evs, 'e) call =
    ChildAtIndexCall 'p key "'e + 'p"
  | FindChildCall 'p 'c "'p option"
  | ForEachChildCall 'p 'cb "'e option"
  | AttributePathCall 'p string
  | AddCall 'p 'v "'e + 'ev option"
  | ReplaceCall 'p 'v "'e + 'ev option"
  | DeleteCall 'p "'e + 'ev option"
  | NotifyCall 'p 'evs "'e option"
  | ToEventsCall 'ev 'evs

text \<open>Everything outside the navigator: the tree, and the invocations made so far, oldest first.\<close>

record ('w, 'k) env =
  world :: 'w
  calls :: "'k list"

definition invoke :: "('w \<Rightarrow> 'r \<times> 'w) \<Rightarrow> ('r \<Rightarrow> 'k) \<Rightarrow> ('w, 'k) env \<Rightarrow> 'r \<times> ('w, 'k) env" where
  "invoke f entry env =
     (case f (world env) of
        (r, w') \<Rightarrow> (r, \<lparr>world = w', calls = calls env @ [entry r]\<rparr>))"

section \<open>The navigator\<close>

record ('p, 'e) defaultNavigator =
  stack :: "'p list"
  err :: "'e error option"

definition Navigate :: "'p \<Rightarrow> ('p, 'e) defaultNavigator" where
  "Navigate property = \<lparr>stack = [property], err = None\<rparr>"

definition Error :: "('p, 'e) defaultNavigator \<Rightarrow> 'e error option" where
  "Error n = err n"

definition HasError :: "('p, 'e) defaultNavigator \<Rightarrow> bool" where
  "HasError n = (err n \<noteq> None)"

definition ClearError :: "('p, 'e) defaultNavigator \<Rightarrow> ('p, 'e) defaultNavigator" where
  "ClearError n = n\<lparr>err := None\<rparr>"

definition Depth :: "('p, 'e) defaultNavigator \<Rightarrow> nat" where
  "Depth n = length (stack n)"

text \<open>
  \<^verbatim>\<open>n.stack[0]\<close> and \<^verbatim>\<open>n.stack[len(n.stack)-1]\<close> panic on an empty slice: \<open>None\<close> is
  that panic, here and in every method that reads \<^verbatim>\<open>Current()\<close>.
\<close>

definition Source :: "('p, 'e) defaultNavigator \<Rightarrow> 'p option" where
  "Source n = (if stack n = [] then None else Some (stack n ! 0))"

definition Current :: "('p, 'e) defaultNavigator \<Rightarrow> 'p option" where
  "Current n = (if stack n = [] then None else Some (stack n ! (length (stack n) - 1)))"

definition Retract :: "('p, 'e) defaultNavigator \<Rightarrow> ('p, 'e) defaultNavigator" where
  "Retract n = (if Depth n > 1 then n\<lparr>stack := take (length (stack n) - 1) (stack n)\<rparr> else n)"

definition Dot ::
  "('p, 'v, 'c, 'cb, 'ev, 'evs, 'e, 'w) property_caps \<Rightarrow> string \<Rightarrow> ('p, 'e) defaultNavigator \<Rightarrow>
   ('w, ('p, 'v, 'c, 'cb, 'ev, 'evs, 'e) call) env \<Rightarrow>
   (('p, 'e) defaultNavigator \<times> ('w, ('p, 'v, 'c, 'cb, 'ev, 'evs, 'e) call) env) option" where
  "Dot P name n env =
     (if err n \<noteq> None then Some (n, env)
      else case Current n of
        None \<Rightarrow> None
      | Some cur \<Rightarrow>
          (case invoke (prop_ChildAtIndex P cur (Name name)) (ChildAtIndexCall cur (Name name)) env of
             (Inl e, env1) \<Rightarrow>
               (case invoke (prop_AttributePath P cur) (AttributePathCall cur) env1 of
                  (path, env2) \<Rightarrow>
                    Some (n\<lparr>err := Some (Errorf ErrInvalidPath
                            ('': no attribute named '' @ quoted name @ '' from '' @ quoted path))\<rparr>,
                          env2))
           | (Inr child, env1) \<Rightarrow> Some (n\<lparr>stack := stack n @ [child]\<rparr>, env1)))"

definition At ::
  "('p, 'v, 'c, 'cb, 'ev, 'evs, 'e, 'w) property_caps \<Rightarrow> int \<Rightarrow> ('p, 'e) defaultNavigator \<Rightarrow>
   ('w, ('p, 'v, 'c, 'cb, 'ev, 'evs, 'e) call) env \<Rightarrow>
   (('p, 'e) defaultNavigator \<times> ('w, ('p, 'v, 'c, 'cb, 'ev, 'evs, 'e) call) env) option" where
  "At P index n env =
     (if err n \<noteq> None then Some (n, env)
      else case Current n of
        None \<Rightarrow> None
      | Some cur \<Rightarrow>
          (case invoke (prop_ChildAtIndex P cur (Index index)) (ChildAtIndexCall cur (Index index)) env of
             (Inl e, env1) \<Rightarrow>
               (case invoke (prop_AttributePath P cur) (AttributePathCall cur) env1 of
                  (path, env2) \<Rightarrow>
                    Some (n\<lparr>err := Some (Errorf ErrNoTarget
                            ('': no target at index '' @ quoted (fmt_d index) @ '' from '' @ quoted path))\<rparr>,
                          env2))
           | (Inr child, env1) \<Rightarrow> Some (n\<lparr>stack := stack n @ [child]\<rparr>, env1)))"

definition Where ::
  "('p, 'v, 'c, 'cb, 'ev, 'evs, 'e, 'w) property_caps \<Rightarrow> 'c \<Rightarrow> ('p, 'e) defaultNavigator \<Rightarrow>
   ('w, ('p, 'v, 'c, 'cb, 'ev, 'evs, 'e) call) env \<Rightarrow>
   (('p, 'e) defaultNavigator \<times> ('w, ('p, 'v, 'c, 'cb, 'ev, 'evs, 'e) call) env) option" where
  "Where P criteria n env =
     (if err n \<noteq> None then Some (n, env)
      else case Current n of
        None \<Rightarrow> None
      | Some cur \<Rightarrow>
          (case invoke (prop_FindChild P cur criteria) (FindChildCall cur criteria) env of
             (None, env1) \<Rightarrow>
               (case invoke (prop_AttributePath P cur) (AttributePathCall cur) env1 of
                  (path, env2) \<Rightarrow>
                    Some (n\<lparr>err := Some (Errorf ErrNoTarget
                            ('': no target meeting criteria from '' @ quoted path))\<rparr>,
                          env2))
           | (Some child, env1) \<Rightarrow> Some (n\<lparr>stack := stack n @ [child]\<rparr>, env1)))"

definition ForEachChild ::
  "('p, 'v, 'c, 'cb, 'ev, 'evs, 'e, 'w) property_caps \<Rightarrow> 'cb \<Rightarrow> ('p, 'e) defaultNavigator \<Rightarrow>
   ('w, ('p, 'v, 'c, 'cb, 'ev, 'evs, 'e) call) env \<Rightarrow>
   ('e error option \<times> ('p, 'e) defaultNavigator \<times> ('w, ('p, 'v, 'c, 'cb, 'ev, 'evs, 'e) call) env) option" where
  "ForEachChild P callback n env =
     (if err n \<noteq> None then Some (err n, n, env)
      else case Current n of
        None \<Rightarrow> None
      | Some cur \<Rightarrow>
          (case invoke (prop_ForEachChild P cur callback) (ForEachChildCall cur callback) env of
             (r, env1) \<Rightarrow> Some (map_option Raised r, n, env1)))"

text \<open>
  The loop \<^verbatim>\<open>for i := len(n.stack) - 1; i >= 0; i--\<close> of \<^verbatim>\<open>delegateMod\<close>: with
  \<open>Suc i\<close> levels left it notifies \<^verbatim>\<open>n.stack[i]\<close> and returns at the first failure.
\<close>

primrec notify_down ::
  "('p, 'v, 'c, 'cb, 'ev, 'evs, 'e, 'w) property_caps \<Rightarrow> 'p list \<Rightarrow> 'evs \<Rightarrow> nat \<Rightarrow>
   ('w, ('p, 'v, 'c, 'cb, 'ev, 'evs, 'e) call) env \<Rightarrow>
   'e error option \<times> ('w, ('p, 'v, 'c, 'cb, 'ev, 'evs, 'e) call) env" where
  "notify_down P s events 0 env = (None, env)"
| "notify_down P s events (Suc i) env =
     (case invoke (prop_Notify P (s ! i) events) (NotifyCall (s ! i) events) env of
        (Some e, env1) \<Rightarrow> (Some (Raised e), env1)
      | (None, env1) \<Rightarrow> notify_down P s events i env1)"

text \<open>
  The closure \<^verbatim>\<open>mod\<close> that the caller passes (\<open>modify\<close> here) reads \<^verbatim>\<open>n.Current()\<close>, and so may panic.
\<close>

definition delegateMod ::
  "('p, 'v, 'c, 'cb, 'ev, 'evs, 'e, 'w) property_caps \<Rightarrow>
   (('w, ('p, 'v, 'c, 'cb, 'ev, 'evs, 'e) call) env \<Rightarrow>
      (('e + 'ev option) \<times> ('w, ('p, 'v, 'c, 'cb, 'ev, 'evs, 'e) call) env) option) \<Rightarrow>
   ('p, 'e) defaultNavigator \<Rightarrow> ('w, ('p, 'v, 'c, 'cb, 'ev, 'evs, 'e) call) env \<Rightarrow>
   ('e error option \<times> ('w, ('p, 'v, 'c, 'cb, 'ev, 'evs, 'e) call) env) option" where
  "delegateMod P modify n env =
     (if err n \<noteq> None then Some (err n, env)
      else case modify env of
        None \<Rightarrow> None
      | Some (Inl e, env1) \<Rightarrow> Some (Some (Raised e), env1)
      | Some (Inr None, env1) \<Rightarrow> Some (None, env1)
      | Some (Inr (Some ev), env1) \<Rightarrow>
          (case invoke (event_ToEvents P ev) (ToEventsCall ev) env1 of
             (events, env2) \<Rightarrow> Some (notify_down P (stack n) events (length (stack n)) env2)))"

definition Add ::
  "('p, 'v, 'c, 'cb, 'ev, 'evs, 'e, 'w) property_caps \<Rightarrow> 'v \<Rightarrow> ('p, 'e) defaultNavigator \<Rightarrow>
   ('w, ('p, 'v, 'c, 'cb, 'ev, 'evs, 'e) call) env \<Rightarrow>
   (('p, 'e) defaultNavigator \<times> ('w, ('p, 'v, 'c, 'cb, 'ev, 'evs, 'e) call) env) option" where
  "Add P v n env =
     (case delegateMod P
             (\<lambda>env0. case Current n of
                        None \<Rightarrow> None
                      | Some cur \<Rightarrow> Some (invoke (prop_Add P cur v) (AddCall cur v) env0))
             n env of
        None \<Rightarrow> None
      | Some (r, env1) \<Rightarrow> Some (n\<lparr>err := r\<rparr>, env1))"

definition Replace ::
  "('p, 'v, 'c, 'cb, 'ev, 'evs, 'e, 'w) property_caps \<Rightarrow> 'v \<Rightarrow> ('p, 'e) defaultNavigator \<Rightarrow>
   ('w, ('p, 'v, 'c, 'cb, 'ev, 'evs, 'e) call) env \<Rightarrow>
   (('p, 'e) defaultNavigator \<times> ('w, ('p, 'v, 'c, 'cb, 'ev, 'evs, 'e) call) env) option" where
  "Replace P v n env =
     (case delegateMod P
             (\<lambda>env0. case Current n of
                        None \<Rightarrow> None
                      | Some cur \<Rightarrow> Some (invoke (prop_Replace P cur v) (ReplaceCall cur v) env0))
             n env of
        None \<Rightarrow> None
      | Some (r, env1) \<Rightarrow> Some (n\<lparr>err := r\<rparr>, env1))"

definition Delete ::
  "('p, 'v, 'c, 'cb, 'ev, 'evs, 'e, 'w) property_caps \<Rightarrow> ('p, 'e) defaultNavigator \<Rightarrow>
   ('w, ('p, 'v, 'c, 'cb, 'ev, 'evs, 'e) call) env \<Rightarrow>
   (('p, 'e) defaultNavigator \<times> ('w, ('p, 'v, 'c, 'cb, 'ev, 'evs, 'e) call) env) option" where
  "Delete P n env =
     (case delegateMod P
             (\<lambda>env0. case Current n of
                        None \<Rightarrow> None
                      | Some cur \<Rightarrow> Some (invoke (prop_Delete P cur) (DeleteCall cur) env0))
             n env of
        None \<Rightarrow> None
      | Some (r, env1) \<Rightarrow> Some (n\<lparr>err := r\<rparr>, env1))"

section \<open>Sequences of calls\<close>

text \<open>The three mutations, so that one statement covers \<^verbatim>\<open>Add\<close>, \<^verbatim>\<open>Replace\<close> and \<^verbatim>\<open>Delete\<close>.\<close>

datatype 'v mutation = AddOf 'v | ReplaceOf 'v | DeleteOf

definition mutate ::
  "('p, 'v, 'c, 'cb, 'ev, 'evs, 'e, 'w) property_caps \<Rightarrow> 'v mutation \<Rightarrow> ('p, 'e) defaultNavigator \<Rightarrow>
   ('w, ('p, 'v, 'c, 'cb, 'ev, 'evs, 'e) call) env \<Rightarrow>
   (('p, 'e) defaultNavigator \<times> ('w, ('p, 'v, 'c, 'cb, 'ev, 'evs, 'e) call) env) option" where
  "mutate P m n env =
     (case m of AddOf v \<Rightarrow> Add P v n env | ReplaceOf v \<Rightarrow> Replace P v n env | DeleteOf \<Rightarrow> Delete P n env)"

text \<open>The capability that a mutation delegates to, and the entry its invocation leaves.\<close>

definition prop_mutation ::
  "('p, 'v, 'c, 'cb, 'ev, 'evs, 'e, 'w) property_caps \<Rightarrow> 'p \<Rightarrow> 'v mutation \<Rightarrow> 'w \<Rightarrow> ('e + 'ev option) \<times> 'w" where
  "prop_mutation P cur m =
     (case m of AddOf v \<Rightarrow> prop_Add P cur v | ReplaceOf v \<Rightarrow> prop_Replace P cur v | DeleteOf \<Rightarrow> prop_Delete P cur)"

definition MutationCall ::
  "'p \<Rightarrow> 'v mutation \<Rightarrow> 'e + 'ev option \<Rightarrow> ('p, 'v, 'c, 'cb, 'ev, 'evs, 'e) call" where
  "MutationCall cur m =
     (case m of AddOf v \<Rightarrow> AddCall cur v | ReplaceOf v \<Rightarrow> ReplaceCall cur v | DeleteOf \<Rightarrow> DeleteCall cur)"

text \<open>The three ways to advance the stack.\<close>

datatype 'c advance = DotTo string | AtTo int | WhereTo 'c

definition advance ::
  "('p, 'v, 'c, 'cb, 'ev, 'evs, 'e, 'w) property_caps \<Rightarrow> 'c advance \<Rightarrow> ('p, 'e) defaultNavigator \<Rightarrow>
   ('w, ('p, 'v, 'c, 'cb, 'ev, 'evs, 'e) call) env \<Rightarrow>
   (('p, 'e) defaultNavigator \<times> ('w, ('p, 'v, 'c, 'cb, 'ev, 'evs, 'e) call) env) option" where
  "advance P a n env =
     (case a of DotTo name \<Rightarrow> Dot P name n env | AtTo i \<Rightarrow> At P i n env | WhereTo c \<Rightarrow> Where P c n env)"

fun advance_all ::
  "('p, 'v, 'c, 'cb, 'ev, 'evs, 'e, 'w) property_caps \<Rightarrow> 'c advance list \<Rightarrow> ('p, 'e) defaultNavigator \<Rightarrow>
   ('w, ('p, 'v, 'c, 'cb, 'ev, 'evs, 'e) call) env \<Rightarrow>
   (('p, 'e) defaultNavigator \<times> ('w, ('p, 'v, 'c, 'cb, 'ev, 'evs, 'e) call) env) option" where
  "advance_all P [] n env = Some (n, env)"
| "advance_all P (a # as) n env =
     (case advance P a n env of
        None \<Rightarrow> None
      | Some (n1, env1) \<Rightarrow> advance_all P as n1 env1)"

text \<open>
  What the specification counts, told without the navigator: \<open>resolve\<close> asks a node for
  the child that one call names, and \<open>resolved_before_failure\<close> walks down from a node,
  one call after the other, and counts the calls that resolve before the first that does not.
\<close>

definition resolve ::
  "('p, 'v, 'c, 'cb, 'ev, 'evs, 'e, 'w) property_caps \<Rightarrow> 'p \<Rightarrow> 'c advance \<Rightarrow> 'w \<Rightarrow> 'p option \<times> 'w" where
  "resolve P cur a w =
     (case a of
        DotTo name \<Rightarrow>
          (case prop_ChildAtIndex P cur (Name name) w of (Inl e, w1) \<Rightarrow> (None, w1) | (Inr child, w1) \<Rightarrow> (Some child, w1))
      | AtTo i \<Rightarrow>
          (case prop_ChildAtIndex P cur (Index i) w of (Inl e, w1) \<Rightarrow> (None, w1) | (Inr child, w1) \<Rightarrow> (Some child, w1))
      | WhereTo c \<Rightarrow> prop_FindChild P cur c w)"

fun resolved_before_failure ::
  "('p, 'v, 'c, 'cb, 'ev, 'evs, 'e, 'w) property_caps \<Rightarrow> 'p \<Rightarrow> 'c advance list \<Rightarrow> 'w \<Rightarrow> nat" where
  "resolved_before_failure P cur [] w = 0"
| "resolved_before_failure P cur (a # as) w =
     (case resolve P cur a w of
        (None, w1) \<Rightarrow> 0
      | (Some child, w1) \<Rightarrow> Suc (resolved_before_failure P child as w1))"

text \<open>Every operation of the interface \<^verbatim>\<open>Navigator\<close>, to run any sequence of calls.\<close>

datatype ('v, 'c, 'cb) operation =
    CallError | CallHasError | CallClearError | CallDepth | CallSource | CallCurrent
  | CallRetract | CallDot string | CallAt int | CallWhere 'c
  | CallAdd 'v | CallReplace 'v | CallDelete | CallForEachChild 'cb

definition call_method ::
  "('p, 'v, 'c, 'cb, 'ev, 'evs, 'e, 'w) property_caps \<Rightarrow> ('v, 'c, 'cb) operation \<Rightarrow> ('p, 'e) defaultNavigator \<Rightarrow>
   ('w, ('p, 'v, 'c, 'cb, 'ev, 'evs, 'e) call) env \<Rightarrow>
   (('p, 'e) defaultNavigator \<times> ('w, ('p, 'v, 'c, 'cb, 'ev, 'evs, 'e) call) env) option" where
  "call_method P m n env =
     (case m of
        CallError \<Rightarrow> Some (n, env)
      | CallHasError \<Rightarrow> Some (n, env)
      | CallClearError \<Rightarrow> Some (ClearError n, env)
      | CallDepth \<Rightarrow> Some (n, env)
      | CallSource \<Rightarrow> (case Source n of None \<Rightarrow> None | Some p \<Rightarrow> Some (n, env))
      | CallCurrent \<Rightarrow> (case Current n of None \<Rightarrow> None | Some p \<Rightarrow> Some (n, env))
      | CallRetract \<Rightarrow> Some (Retract n, env)
      | CallDot name \<Rightarrow> Dot P name n env
      | CallAt i \<Rightarrow> At P i n env
      | CallWhere c \<Rightarrow> Where P c n env
      | CallAdd v \<Rightarrow> Add P v n env
      | CallReplace v \<Rightarrow> Replace P v n env
      | CallDelete \<Rightarrow> Delete P n env
      | CallForEachChild cb \<Rightarrow>
          (case ForEachChild P cb n env of None \<Rightarrow> None | Some (r, n1, env1) \<Rightarrow> Some (n1, env1)))"

fun call_methods ::
  "('p, 'v, 'c, 'cb, 'ev, 'evs, 'e, 'w) property_caps \<Rightarrow> ('v, 'c, 'cb) operation list \<Rightarrow> ('p, 'e) defaultNavigator \<Rightarrow>
   ('w, ('p, 'v, 'c, 'cb, 'ev, 'evs, 'e) call) env \<Rightarrow>
   (('p, 'e) defaultNavigator \<times> ('w, ('p, 'v, 'c, 'cb, 'ev, 'evs, 'e) call) env) option" where
  "call_methods P [] n env = Some (n, env)"
| "call_methods P (m # ms) n env =
     (case call_method P m n env of
        None \<Rightarrow> None
      | Some (n1, env1) \<Rightarrow> call_methods P ms n1 env1)"

section \<open>A small tree to run the navigator on\<close>

text \<open>
  The resource of the specification's scenario: the root \<open>0\<close> has the child
  \<open>emails\<close> (node \<open>1\<close>), a collection whose element \<open>0\<close> (node \<open>2\<close>) has the field
  \<open>value\<close> (node \<open>3\<close>). The nodes listed in \<open>veto\<close> refuse a notification. A criterion
  is the node looked for, a callback is the error it returns for every child, an event is
  the value written, and the tree's state counts the mutations and notifications.
\<close>

definition node_path :: "nat \<Rightarrow> string" where
  "node_path p =
     (if p = 0 then [] else if p = 1 then ''emails'' else if p = 2 then ''emails''
      else ''emails.value'')"

definition child_of :: "nat \<Rightarrow> key \<Rightarrow> string + nat" where
  "child_of p k =
     (if p = 0 \<and> k = Name ''emails'' then Inr 1
      else if p = 1 \<and> k = Index 0 then Inr 2
      else if p = 2 \<and> k = Name ''value'' then Inr 3
      else Inl ''no such child'')"

definition write_to :: "nat \<Rightarrow> string \<Rightarrow> string + string option" where
  "write_to p v =
     (if p = 3 then (if v = [] then Inr None else Inr (Some v)) else Inl ''not a simple property'')"

definition tree_caps ::
  "nat list \<Rightarrow> (nat, string, nat, string option, string, string list, string, nat) property_caps" where
  "tree_caps veto =
     \<lparr>prop_ChildAtIndex = (\<lambda>p k w. (child_of p k, w)),
      prop_FindChild = (\<lambda>p c w. (if p = 1 \<and> c = 2 then Some 2 else None, w)),
      prop_ForEachChild = (\<lambda>p cb w. (if p < 3 then cb else None, w)),
      prop_AttributePath = (\<lambda>p w. (node_path p, w)),
      prop_Add = (\<lambda>p v w. (write_to p v, Suc w)),
      prop_Replace = (\<lambda>p v w. (write_to p v, Suc w)),
      prop_Delete = (\<lambda>p w. (write_to p [], Suc w)),
      prop_Notify = (\<lambda>p evs w. (if p \<in> set veto then Some ''vetoed'' else None, Suc w)),
      event_ToEvents = (\<lambda>ev w. ([ev], w))\<rparr>"

definition env0 :: "(nat, (nat, string, nat, string option, string, string list, string) call) env" where
  "env0 = \<lparr>world = 0, calls = []\<rparr>"

definition nav_value :: "(nat, string) defaultNavigator" where
  "nav_value = \<lparr>stack = [0, 1, 2, 3], err = None\<rparr>"

text \<open>The operations whose first statement tests the sticky error.\<close>

fun checks_error_first :: "('v, 'c, 'cb) operation \<Rightarrow> bool" where
  "checks_error_first (CallDot name) = True"
| "checks_error_first (CallAt i) = True"
| "checks_error_first (CallWhere c) = True"
| "checks_error_first (CallAdd v) = True"
| "checks_error_first (CallReplace v) = True"
| "checks_error_first CallDelete = True"
| "checks_error_first (CallForEachChild cb) = True"
| "checks_error_first m = False"

text \<open>Two navigators in the faulted state, over the small tree.\<close>

definition nav_vetoed :: "(nat, string) defaultNavigator" where
  "nav_vetoed = \<lparr>stack = [0, 1, 2, 3], err = Some (Raised ''vetoed'')\<rparr>"

definition nav_lost :: "(nat, string) defaultNavigator" where
  "nav_lost = \<lparr>stack = [0, 1, 2], err = Some (Errorf ErrInvalidPath ''lost'')\<rparr>"

section \<open>Facts about the delegated calls\<close>

lemma invoke_eq:
  "f (world env) = (r, w') \<Longrightarrow> invoke f entry env = (r, \<lparr>world = w', calls = calls env @ [entry r]\<rparr>)"
  by (simp add: invoke_def)

lemma mutate_faulted: "err n = Some x \<Longrightarrow> mutate P m n env = Some (n, env)"
  by (cases m) (simp_all add: mutate_def Add_def Replace_def Delete_def delegateMod_def)

lemma mutate_clear:
  assumes "err n = None" and "Current n = Some cur"
    and "prop_mutation P cur m (world env) = (r, w1)"
  shows "mutate P m n env =
     (case r of
        Inl e \<Rightarrow> Some (n\<lparr>err := Some (Raised e)\<rparr>, \<lparr>world = w1, calls = calls env @ [MutationCall cur m r]\<rparr>)
      | Inr None \<Rightarrow> Some (n\<lparr>err := None\<rparr>, \<lparr>world = w1, calls = calls env @ [MutationCall cur m r]\<rparr>)
      | Inr (Some ev) \<Rightarrow>
          (case invoke (event_ToEvents P ev) (ToEventsCall ev)
                  \<lparr>world = w1, calls = calls env @ [MutationCall cur m r]\<rparr> of
             (events, env2) \<Rightarrow>
               (case notify_down P (stack n) events (length (stack n)) env2 of
                  (x, env3) \<Rightarrow> Some (n\<lparr>err := x\<rparr>, env3))))"
  using assms
  by (cases m)
     (auto simp: mutate_def Add_def Replace_def Delete_def delegateMod_def prop_mutation_def
        MutationCall_def invoke_def split: sum.splits option.splits prod.splits)

lemma notify_down_world_calls:
  "notify_down P s events k env = (r, env') \<Longrightarrow>
     (r = None \<and> calls env' = calls env @ map (\<lambda>j. NotifyCall (s ! j) events None) (rev [0..<k])) \<or>
     (\<exists>i e. i < k \<and> r = Some (Raised e) \<and>
        calls env' = calls env @ map (\<lambda>j. NotifyCall (s ! j) events (if j = i then Some e else None)) (rev [i..<k]))"
proof (induction k arbitrary: env)
  case 0
  then show ?case by simp
next
  case (Suc k)
  obtain x w1 where f: "prop_Notify P (s ! k) events (world env) = (x, w1)"
    by (cases "prop_Notify P (s ! k) events (world env)")
  let ?env1 = "\<lparr>world = w1, calls = calls env @ [NotifyCall (s ! k) events x]\<rparr>"
  have inv: "invoke (prop_Notify P (s ! k) events) (NotifyCall (s ! k) events) env = (x, ?env1)"
    using f by (rule invoke_eq)
  show ?case
  proof (cases x)
    case None
    with Suc.prems inv have rec: "notify_down P s events k ?env1 = (r, env')" by simp
    from Suc.IH [OF rec] show ?thesis
    proof (elim disjE exE conjE)
      assume "r = None" "calls env' = calls ?env1 @ map (\<lambda>j. NotifyCall (s ! j) events None) (rev [0..<k])"
      with None show ?thesis by simp
    next
      fix i e
      assume a: "i < k" "r = Some (Raised e)"
        "calls env' = calls ?env1 @ map (\<lambda>j. NotifyCall (s ! j) events (if j = i then Some e else None)) (rev [i..<k])"
      then have "calls env' = calls env @ map (\<lambda>j. NotifyCall (s ! j) events (if j = i then Some e else None)) (rev [i..<Suc k])"
        using None by simp
      with a show ?thesis by (intro disjI2 exI [of _ i] exI [of _ e]) simp
    qed
  next
    case (Some e)
    with Suc.prems inv have "r = Some (Raised e)" "env' = ?env1" by simp_all
    then show ?thesis using Some
      by (intro disjI2 exI [of _ k] exI [of _ e]) simp
  qed
qed

lemma mutate_keeps_stack:
  assumes "stack n \<noteq> []"
  shows "\<exists>x env'. mutate P m n env = Some (n\<lparr>err := x\<rparr>, env')"
proof (cases "err n")
  case (Some x)
  then have "n\<lparr>err := Some x\<rparr> = n" by (cases n) simp
  with mutate_faulted [OF Some, of P m env] show ?thesis by metis
next
  case None
  from assms have c: "Current n = Some (last (stack n))" by (simp add: Current_def last_conv_nth)
  obtain r w1 where r: "prop_mutation P (last (stack n)) m (world env) = (r, w1)"
    by (cases "prop_mutation P (last (stack n)) m (world env)")
  from mutate_clear [OF None c r] show ?thesis
    by (auto split: sum.splits option.splits prod.splits)
qed

section \<open>Upward propagation\<close>

text \<open>
  C1. From a navigator with no sticky error, when the mutation delegated to \<open>Current\<close>
  succeeds with an event and the call ends without a sticky error, the invocations made are:
  the mutation, one flattening of the event, then \<open>Notify\<close> once for each stack level from
  the last (\<open>Current\<close>) down to level \<open>0\<close> (\<open>Source\<close>), each with that same flattened
  sequence. The stack is not touched.
\<close>

theorem notify_each_level_current_to_source:
  assumes "err n = None" and "Current n = Some cur"
    and "prop_mutation P cur m (world env) = (Inr (Some ev), w1)"
    and "event_ToEvents P ev w1 = (events, w2)"
  shows "\<exists>n' env'. mutate P m n env = Some (n', env') \<and> stack n' = stack n \<and>
     (err n' = None \<longrightarrow>
        calls env' = calls env @ [MutationCall cur m (Inr (Some ev)), ToEventsCall ev events] @
          map (\<lambda>i. NotifyCall (stack n ! i) events None) (rev [0..<Depth n]))"
proof -
  let ?env1 = "\<lparr>world = w1, calls = calls env @ [MutationCall cur m (Inr (Some ev))]\<rparr>"
  let ?env2 = "\<lparr>world = w2, calls = calls ?env1 @ [ToEventsCall ev events]\<rparr>"
  obtain x env3 where nd: "notify_down P (stack n) events (length (stack n)) ?env2 = (x, env3)"
    by (cases "notify_down P (stack n) events (length (stack n)) ?env2")
  have flat: "invoke (event_ToEvents P ev) (ToEventsCall ev) ?env1 = (events, ?env2)"
    using assms(4) by (simp add: invoke_def)
  have run: "mutate P m n env = Some (n\<lparr>err := x\<rparr>, env3)"
    using mutate_clear [OF assms(1-3)] flat nd by simp
  have "x = None \<longrightarrow> calls env3 = calls ?env2 @ map (\<lambda>i. NotifyCall (stack n ! i) events None) (rev [0..<length (stack n)])"
    using notify_down_world_calls [OF nd] by auto
  then show ?thesis using run by (simp add: Depth_def)
qed

theorem notify_each_level_current_to_source_witness:
  "err nav_value = None \<and> Current nav_value = Some 3 \<and>
   prop_mutation (tree_caps []) 3 (ReplaceOf ''a@b.com'') (world env0) = (Inr (Some ''a@b.com''), 1) \<and>
   event_ToEvents (tree_caps []) ''a@b.com'' 1 = ([''a@b.com''], 1) \<and>
   (\<exists>n' env'. mutate (tree_caps []) (ReplaceOf ''a@b.com'') nav_value env0 = Some (n', env') \<and>
      stack n' = [0, 1, 2, 3] \<and> err n' = None \<and>
      calls env' =
        [ReplaceCall 3 ''a@b.com'' (Inr (Some ''a@b.com'')), ToEventsCall ''a@b.com'' [''a@b.com''],
         NotifyCall 3 [''a@b.com''] None, NotifyCall 2 [''a@b.com''] None,
         NotifyCall 1 [''a@b.com''] None, NotifyCall 0 [''a@b.com''] None])"
proof -
  have h1: "err nav_value = None" by (simp add: nav_value_def)
  have h2: "Current nav_value = Some 3" by (simp add: nav_value_def Current_def)
  have h3: "prop_mutation (tree_caps []) 3 (ReplaceOf ''a@b.com'') (world env0) = (Inr (Some ''a@b.com''), 1)"
    by (simp add: prop_mutation_def tree_caps_def write_to_def env0_def)
  have h4: "event_ToEvents (tree_caps []) ''a@b.com'' 1 = ([''a@b.com''], 1)"
    by (simp add: tree_caps_def)
  have run: "err (fst (the (mutate (tree_caps []) (ReplaceOf ''a@b.com'') nav_value env0))) = None"
    by (simp add: mutate_def Replace_def delegateMod_def invoke_def nav_value_def Current_def
        tree_caps_def write_to_def env0_def)
  from notify_each_level_current_to_source [OF h1 h2 h3 h4] run h1 h2 h3 h4
  show ?thesis
    by (auto simp: Depth_def nav_value_def env0_def MutationCall_def upt_rec)
qed

text \<open>
  C2. From a navigator with no sticky error, when the delegated mutation succeeds with an
  event: if some \<open>Notify\<close> invocation fails with \<open>e\<close>, then it is the invocation of a stack
  level \<open>i\<close>, the levels notified are exactly those from the last down to \<open>i\<close> (every one above
  \<open>i\<close> accepted), so no level below \<open>i\<close> is notified, and \<open>e\<close> is the sticky error.
\<close>

theorem notify_failure_stops_propagation:
  assumes "err n = None" and "Current n = Some cur"
    and "prop_mutation P cur m (world env) = (Inr (Some ev), w1)"
    and "event_ToEvents P ev w1 = (events, w2)"
  shows "\<exists>n' env' notified. mutate P m n env = Some (n', env') \<and> stack n' = stack n \<and>
     calls env' = calls env @ [MutationCall cur m (Inr (Some ev)), ToEventsCall ev events] @ notified \<and>
     (\<forall>p e. NotifyCall p events (Some e) \<in> set notified \<longrightarrow>
        err n' = Some (Raised e) \<and>
        (\<exists>i < Depth n. p = stack n ! i \<and>
           notified = map (\<lambda>j. NotifyCall (stack n ! j) events (if j = i then Some e else None))
                        (rev [i..<Depth n])))"
proof -
  let ?env1 = "\<lparr>world = w1, calls = calls env @ [MutationCall cur m (Inr (Some ev))]\<rparr>"
  let ?env2 = "\<lparr>world = w2, calls = calls ?env1 @ [ToEventsCall ev events]\<rparr>"
  let ?k = "length (stack n)"
  obtain x env3 where nd: "notify_down P (stack n) events ?k ?env2 = (x, env3)"
    by (cases "notify_down P (stack n) events ?k ?env2")
  have flat: "invoke (event_ToEvents P ev) (ToEventsCall ev) ?env1 = (events, ?env2)"
    using assms(4) by (simp add: invoke_def)
  have run: "mutate P m n env = Some (n\<lparr>err := x\<rparr>, env3)"
    using mutate_clear [OF assms(1-3)] flat nd by simp
  from notify_down_world_calls [OF nd]
  consider (ok) "x = None" "calls env3 = calls ?env2 @ map (\<lambda>j. NotifyCall (stack n ! j) events None) (rev [0..<?k])"
    | (stop) i e where "i < ?k" "x = Some (Raised e)"
        "calls env3 = calls ?env2 @ map (\<lambda>j. NotifyCall (stack n ! j) events (if j = i then Some e else None)) (rev [i..<?k])"
    by blast
  then show ?thesis
  proof cases
    case ok
    with run show ?thesis
      by (intro exI [of _ "n\<lparr>err := x\<rparr>"] exI [of _ env3]
            exI [of _ "map (\<lambda>j. NotifyCall (stack n ! j) events None) (rev [0..<?k])"])
         auto
  next
    case stop
    let ?notified = "map (\<lambda>j. NotifyCall (stack n ! j) events (if j = i then Some e else None)) (rev [i..<?k])"
    have only: "\<forall>p e'. NotifyCall p events (Some e') \<in> set ?notified \<longrightarrow> e' = e \<and> p = stack n ! i"
      by (auto split: if_splits)
    show ?thesis
      using run stop only
      by (intro exI [of _ "n\<lparr>err := x\<rparr>"] exI [of _ env3] exI [of _ ?notified])
         (auto simp: Depth_def)
  qed
qed

theorem notify_failure_stops_propagation_witness:
  "err nav_value = None \<and> Current nav_value = Some 3 \<and>
   prop_mutation (tree_caps [2]) 3 (AddOf ''a@b.com'') (world env0) = (Inr (Some ''a@b.com''), 1) \<and>
   event_ToEvents (tree_caps [2]) ''a@b.com'' 1 = ([''a@b.com''], 1) \<and>
   (\<exists>n' env'. mutate (tree_caps [2]) (AddOf ''a@b.com'') nav_value env0 = Some (n', env') \<and>
      calls env' =
        [AddCall 3 ''a@b.com'' (Inr (Some ''a@b.com'')), ToEventsCall ''a@b.com'' [''a@b.com''],
         NotifyCall 3 [''a@b.com''] None, NotifyCall 2 [''a@b.com''] (Some ''vetoed'')] \<and>
      err n' = Some (Raised ''vetoed''))"
proof -
  have h1: "err nav_value = None" by (simp add: nav_value_def)
  have h2: "Current nav_value = Some 3" by (simp add: nav_value_def Current_def)
  have h3: "prop_mutation (tree_caps [2]) 3 (AddOf ''a@b.com'') (world env0) = (Inr (Some ''a@b.com''), 1)"
    by (simp add: prop_mutation_def tree_caps_def write_to_def env0_def)
  have h4: "event_ToEvents (tree_caps [2]) ''a@b.com'' 1 = ([''a@b.com''], 1)"
    by (simp add: tree_caps_def)
  have run: "calls (snd (the (mutate (tree_caps [2]) (AddOf ''a@b.com'') nav_value env0))) =
        [AddCall 3 ''a@b.com'' (Inr (Some ''a@b.com'')), ToEventsCall ''a@b.com'' [''a@b.com''],
         NotifyCall 3 [''a@b.com''] None, NotifyCall 2 [''a@b.com''] (Some ''vetoed'')]"
    by (simp add: mutate_def Add_def delegateMod_def invoke_def nav_value_def Current_def
        tree_caps_def write_to_def env0_def)
  from notify_failure_stops_propagation [OF h1 h2 h3 h4]
  obtain n' env' notified where
    a: "mutate (tree_caps [2]) (AddOf ''a@b.com'') nav_value env0 = Some (n', env')"
    and b: "calls env' = calls env0 @ [MutationCall 3 (AddOf ''a@b.com'') (Inr (Some ''a@b.com'')),
              ToEventsCall ''a@b.com'' [''a@b.com'']] @ notified"
    and c: "\<forall>p e. NotifyCall p [''a@b.com''] (Some e) \<in> set notified \<longrightarrow> err n' = Some (Raised e)"
    by blast
  from a b run have "notified = [NotifyCall 3 [''a@b.com''] None, NotifyCall 2 [''a@b.com''] (Some ''vetoed'')]"
    by (simp add: env0_def MutationCall_def)
  with c have "err n' = Some (Raised ''vetoed'')" by simp
  with a run h1 h2 h3 h4 show ?thesis by simp
qed

text \<open>
  C10. From a navigator with no sticky error: a delegated mutation that fails with \<open>e\<close>
  makes \<open>e\<close> the sticky error, one that succeeds with no event leaves the navigator as it
  was, free of error; in both cases the mutation is the only invocation made, so \<open>Notify\<close>
  is invoked on no stack element.
\<close>

theorem failed_or_silent_mutation_notifies_nobody:
  assumes "err n = None" and "Current n = Some cur"
    and "prop_mutation P cur m (world env) = (r, w1)"
    and "env1 = \<lparr>world = w1, calls = calls env @ [MutationCall cur m r]\<rparr>"
  shows "(\<forall>e. r = Inl e \<longrightarrow> mutate P m n env = Some (n\<lparr>err := Some (Raised e)\<rparr>, env1)) \<and>
         (r = Inr None \<longrightarrow> mutate P m n env = Some (n, env1)) \<and>
         (\<forall>p evs x. NotifyCall p evs x \<notin> set (drop (length (calls env)) (calls env1)))"
proof -
  have same: "n\<lparr>err := None\<rparr> = n" using assms(1) by (cases n) simp
  have none: "\<forall>p evs x. NotifyCall p evs x \<notin> set (drop (length (calls env)) (calls env1))"
    by (cases m) (simp_all add: assms(4) MutationCall_def)
  show ?thesis
    using mutate_clear [OF assms(1-3)] assms(4) same none by (cases r) auto
qed

theorem failed_or_silent_mutation_notifies_nobody_witness:
  "err nav_value = None \<and> Current nav_value = Some 3 \<and>
   prop_mutation (tree_caps []) 3 DeleteOf (world env0) = (Inr None, 1) \<and>
   mutate (tree_caps []) DeleteOf nav_value env0 =
     Some (nav_value, \<lparr>world = 1, calls = [DeleteCall 3 (Inr None)]\<rparr>) \<and>
   err (Navigate 0 :: (nat, string) defaultNavigator) = None \<and>
   Current (Navigate 0 :: (nat, string) defaultNavigator) = Some 0 \<and>
   prop_mutation (tree_caps []) 0 (AddOf ''x'') (world env0) = (Inl ''not a simple property'', 1) \<and>
   mutate (tree_caps []) (AddOf ''x'') (Navigate 0) env0 =
     Some (\<lparr>stack = [0], err = Some (Raised ''not a simple property'')\<rparr>,
           \<lparr>world = 1, calls = [AddCall 0 ''x'' (Inl ''not a simple property'')]\<rparr>)"
proof -
  have h1: "err nav_value = None" by (simp add: nav_value_def)
  have h2: "Current nav_value = Some 3" by (simp add: nav_value_def Current_def)
  have h3: "prop_mutation (tree_caps []) 3 DeleteOf (world env0) = (Inr None, 1)"
    by (simp add: prop_mutation_def tree_caps_def write_to_def env0_def)
  have g1: "err (Navigate 0 :: (nat, string) defaultNavigator) = None" by (simp add: Navigate_def)
  have g2: "Current (Navigate 0 :: (nat, string) defaultNavigator) = Some 0"
    by (simp add: Navigate_def Current_def)
  have g3: "prop_mutation (tree_caps []) 0 (AddOf ''x'') (world env0) = (Inl ''not a simple property'', 1)"
    by (simp add: prop_mutation_def tree_caps_def write_to_def env0_def)
  from failed_or_silent_mutation_notifies_nobody [OF h1 h2 h3 refl]
       failed_or_silent_mutation_notifies_nobody [OF g1 g2 g3 refl] h1 h2 h3 g1 g2 g3
  show ?thesis
    by (simp add: env0_def MutationCall_def Navigate_def)
qed

section \<open>Navigation and the sticky error\<close>

lemma advance_faulted: "err n = Some x \<Longrightarrow> advance P a n env = Some (n, env)"
  by (cases a) (simp_all add: advance_def Dot_def At_def Where_def)

lemma advance_all_faulted: "err n = Some x \<Longrightarrow> advance_all P as n env = Some (n, env)"
  by (induction as) (simp_all add: advance_faulted)

lemma advance_clear:
  assumes "err n = None" and "Current n = Some cur"
  shows "case resolve P cur a (world env) of
           (None, w1) \<Rightarrow> (\<exists>x env'. advance P a n env = Some (n\<lparr>err := Some x\<rparr>, env'))
         | (Some child, w1) \<Rightarrow>
             (\<exists>env'. advance P a n env = Some (n\<lparr>stack := stack n @ [child]\<rparr>, env') \<and> world env' = w1)"
  using assms
  by (cases a)
     (auto simp: advance_def resolve_def Dot_def At_def Where_def invoke_def
        split: prod.splits sum.splits option.splits)

lemma advance_all_depth:
  assumes "err n = None" and "Current n = Some cur"
  shows "\<exists>n' env'. advance_all P as n env = Some (n', env') \<and>
           Depth n' = Depth n + resolved_before_failure P cur as (world env) \<and>
           resolved_before_failure P cur as (world env) \<le> length as \<and>
           (err n' = None) = (resolved_before_failure P cur as (world env) = length as)"
  using assms
proof (induction as arbitrary: n cur env)
  case Nil
  then show ?case by simp
next
  case (Cons a as)
  obtain r w1 where r: "resolve P cur a (world env) = (r, w1)"
    by (cases "resolve P cur a (world env)")
  show ?case
  proof (cases r)
    case None
    with advance_clear [OF Cons.prems, of P a env] r
    obtain x env' where "advance P a n env = Some (n\<lparr>err := Some x\<rparr>, env')" by auto
    then show ?thesis using r None
      by (simp add: advance_all_faulted Depth_def)
  next
    case (Some child)
    with advance_clear [OF Cons.prems, of P a env] r
    obtain env' where step: "advance P a n env = Some (n\<lparr>stack := stack n @ [child]\<rparr>, env')"
      and w: "world env' = w1" by auto
    have e: "err (n\<lparr>stack := stack n @ [child]\<rparr>) = None" using Cons.prems by simp
    have c: "Current (n\<lparr>stack := stack n @ [child]\<rparr>) = Some child" by (simp add: Current_def)
    from Cons.IH [OF e c, of env'] step r Some w show ?thesis
      by (auto simp: Depth_def)
  qed
qed

lemma call_method_faulted:
  "err n = Some x \<Longrightarrow> checks_error_first m \<Longrightarrow> call_method P m n env = Some (n, env)"
  by (cases m)
     (simp_all add: call_method_def Dot_def At_def Where_def Add_def Replace_def Delete_def
        delegateMod_def ForEachChild_def)

lemma call_methods_faulted:
  "err n = Some x \<Longrightarrow> list_all checks_error_first ms \<Longrightarrow> call_methods P ms n env = Some (n, env)"
  by (induction ms) (simp_all add: call_method_faulted)

lemma call_method_keeps_source:
  assumes "stack n \<noteq> []"
  shows "\<exists>n' env'. call_method P m n env = Some (n', env') \<and> stack n' \<noteq> [] \<and> stack n' ! 0 = stack n ! 0"
proof (cases m)
  case (CallAdd v)
  with mutate_keeps_stack [OF assms, of P "AddOf v" env] assms show ?thesis
    by (auto simp: call_method_def mutate_def)
next
  case (CallReplace v)
  with mutate_keeps_stack [OF assms, of P "ReplaceOf v" env] assms show ?thesis
    by (auto simp: call_method_def mutate_def)
next
  case CallDelete
  with mutate_keeps_stack [OF assms, of P DeleteOf env] assms show ?thesis
    by (auto simp: call_method_def mutate_def)
next
  case CallRetract
  with assms show ?thesis
    by (cases "stack n") (auto simp: call_method_def Retract_def Depth_def)
qed (use assms in \<open>auto simp: call_method_def ClearError_def Source_def Current_def Dot_def At_def
       Where_def ForEachChild_def invoke_def nth_append split: prod.splits sum.splits option.splits\<close>)

lemma call_methods_keep_source:
  assumes "stack n \<noteq> []"
  shows "\<exists>n' env'. call_methods P ms n env = Some (n', env') \<and> stack n' \<noteq> [] \<and> stack n' ! 0 = stack n ! 0"
  using assms
proof (induction ms arbitrary: n env)
  case Nil
  then show ?case by simp
next
  case (Cons m ms)
  from call_method_keeps_source [OF Cons.prems, of P m env]
  obtain n1 env1 where s: "call_method P m n env = Some (n1, env1)" "stack n1 \<noteq> []" "stack n1 ! 0 = stack n ! 0"
    by blast
  from Cons.IH [OF s(2), of env1] s show ?case by auto
qed

text \<open>
  C3. After any sequence of \<open>Dot\<close>, \<open>At\<close> and \<open>Where\<close> calls on a fresh navigator,
  \<open>Depth\<close> is one more than the number of calls that resolved before the first failure; that
  is one more than the length of the sequence when the navigator ends without an error, and
  an error at the end means that fewer calls resolved than were made.
\<close>

theorem depth_counts_resolved_calls:
  "\<exists>n' env'. advance_all P as (Navigate p) env = Some (n', env') \<and>
     Depth n' = 1 + resolved_before_failure P p as (world env) \<and>
     resolved_before_failure P p as (world env) \<le> length as \<and>
     (\<not> HasError n' \<longrightarrow> Depth n' = 1 + length as) \<and>
     (HasError n' \<longrightarrow> resolved_before_failure P p as (world env) < length as)"
proof -
  have e: "err (Navigate p) = None" by (simp add: Navigate_def)
  have c: "Current (Navigate p) = Some p" by (simp add: Navigate_def Current_def)
  from advance_all_depth [OF e c, of P as env] show ?thesis
    by (auto simp: Depth_def Navigate_def HasError_def)
qed

theorem depth_counts_resolved_calls_witness:
  "(\<exists>n' env'. advance_all (tree_caps []) [DotTo ''emails'', AtTo 0, DotTo ''value''] (Navigate 0) env0 = Some (n', env') \<and>
      Depth n' = 4 \<and> \<not> HasError n') \<and>
   (\<exists>n' env'. advance_all (tree_caps []) [DotTo ''emails'', AtTo 5, DotTo ''value'', WhereTo 2] (Navigate 0) env0 = Some (n', env') \<and>
      Depth n' = 2 \<and> HasError n')"
proof -
  have r1: "resolved_before_failure (tree_caps []) 0 [DotTo ''emails'', AtTo 0, DotTo ''value''] (world env0) = 3"
    by (simp add: resolve_def tree_caps_def child_of_def)
  have r2: "resolved_before_failure (tree_caps []) 0 [DotTo ''emails'', AtTo 5, DotTo ''value'', WhereTo 2] (world env0) = 1"
    by (simp add: resolve_def tree_caps_def child_of_def)
  from depth_counts_resolved_calls [of "tree_caps []" "[DotTo ''emails'', AtTo 0, DotTo ''value'']" 0 env0]
       depth_counts_resolved_calls [of "tree_caps []" "[DotTo ''emails'', AtTo 5, DotTo ''value'', WhereTo 2]" 0 env0]
       r1 r2
  show ?thesis by auto
qed

text \<open>
  C4. \<open>Retract\<close> neither reads nor changes the sticky error. At depth one it returns the
  navigator as it is; at a greater depth the depth drops by one, the source stays and the
  element under the old top becomes \<open>Current\<close>: retracting right after a push gives back the
  navigator from before the push.
\<close>

theorem retract_pops_unless_at_source:
  "err (Retract n) = err n \<and> stack (Retract (n\<lparr>err := x\<rparr>)) = stack (Retract n) \<and>
   (Depth n = 1 \<longrightarrow> Retract n = n) \<and>
   (Depth n > 1 \<longrightarrow>
      Depth (Retract n) = Depth n - 1 \<and> Source (Retract n) = Source n \<and>
      Current (Retract n) = Some (stack n ! (Depth n - 2))) \<and>
   (stack n \<noteq> [] \<longrightarrow>
      Retract (n\<lparr>stack := stack n @ [child]\<rparr>) = n \<and>
      Current (Retract (n\<lparr>stack := stack n @ [child]\<rparr>)) = Current n)"
proof -
  have a: "err (Retract n) = err n" by (simp add: Retract_def)
  have b: "stack (Retract (n\<lparr>err := x\<rparr>)) = stack (Retract n)" by (simp add: Retract_def Depth_def)
  have c: "Depth n = 1 \<longrightarrow> Retract n = n" by (simp add: Retract_def)
  have d: "Depth n > 1 \<longrightarrow>
      Depth (Retract n) = Depth n - 1 \<and> Source (Retract n) = Source n \<and>
      Current (Retract n) = Some (stack n ! (Depth n - 2))"
    by (auto simp: Retract_def Depth_def Source_def Current_def numeral_2_eq_2)
  have e: "stack n \<noteq> [] \<longrightarrow> Retract (n\<lparr>stack := stack n @ [child]\<rparr>) = n"
    by (cases n) (auto simp: Retract_def Depth_def)
  from a b c d e show ?thesis by simp
qed

theorem retract_pops_unless_at_source_witness:
  "Depth (Navigate 0 :: (nat, string) defaultNavigator) = 1 \<and>
   Retract (Navigate 0 :: (nat, string) defaultNavigator) = Navigate 0 \<and>
   Depth nav_vetoed > 1 \<and> Depth (Retract nav_vetoed) = 3 \<and> Current (Retract nav_vetoed) = Some 2 \<and>
   Source (Retract nav_vetoed) = Some 0 \<and> err (Retract nav_vetoed) = Some (Raised ''vetoed'') \<and>
   stack nav_lost \<noteq> [] \<and> Retract (nav_lost\<lparr>stack := stack nav_lost @ [3]\<rparr>) = nav_lost"
proof -
  have h1: "Depth (Navigate 0 :: (nat, string) defaultNavigator) = 1" by (simp add: Depth_def Navigate_def)
  have h2: "Depth nav_vetoed > 1" by (simp add: Depth_def nav_vetoed_def)
  have h3: "stack nav_lost \<noteq> []" by (simp add: nav_lost_def)
  from retract_pops_unless_at_source [of "Navigate 0 :: (nat, string) defaultNavigator"]
       retract_pops_unless_at_source [of nav_vetoed]
       retract_pops_unless_at_source [of nav_lost _ 3] h1 h2 h3
  show ?thesis by (simp add: Depth_def nav_vetoed_def Source_def)
qed



text \<open>
  C6. With the sticky error set, \<open>Dot\<close>, \<open>At\<close>, \<open>Where\<close>, \<open>Add\<close>, \<open>Replace\<close> and
  \<open>Delete\<close> return the navigator unchanged and invoke no capability (the tree and the record of
  invocations stay the same); \<open>ForEachChild\<close> returns the stored error, likewise. Any sequence
  of these calls leaves the same navigator and the same error.
\<close>

theorem faulted_calls_are_inert:
  assumes "err n = Some x"
  shows "Dot P name n env = Some (n, env) \<and> At P i n env = Some (n, env) \<and>
         Where P c n env = Some (n, env) \<and> Add P v n env = Some (n, env) \<and>
         Replace P v n env = Some (n, env) \<and> Delete P n env = Some (n, env) \<and>
         ForEachChild P cb n env = Some (Some x, n, env) \<and>
         (list_all checks_error_first ms \<longrightarrow> call_methods P ms n env = Some (n, env))"
  using assms call_methods_faulted [OF assms, of ms P env]
  by (simp add: Dot_def At_def Where_def Add_def Replace_def Delete_def delegateMod_def ForEachChild_def)

theorem faulted_calls_are_inert_witness:
  "err nav_vetoed = Some (Raised ''vetoed'') \<and>
   Dot (tree_caps []) ''value'' nav_vetoed env0 = Some (nav_vetoed, env0) \<and>
   At (tree_caps []) 0 nav_vetoed env0 = Some (nav_vetoed, env0) \<and>
   Where (tree_caps []) 2 nav_vetoed env0 = Some (nav_vetoed, env0) \<and>
   Add (tree_caps []) ''a'' nav_vetoed env0 = Some (nav_vetoed, env0) \<and>
   Replace (tree_caps []) ''a'' nav_vetoed env0 = Some (nav_vetoed, env0) \<and>
   Delete (tree_caps []) nav_vetoed env0 = Some (nav_vetoed, env0) \<and>
   ForEachChild (tree_caps []) None nav_vetoed env0 = Some (Some (Raised ''vetoed''), nav_vetoed, env0) \<and>
   list_all checks_error_first [CallReplace ''a'', CallDot ''value'', CallReplace ''a'', CallForEachChild None] \<and>
   call_methods (tree_caps []) [CallReplace ''a'', CallDot ''value'', CallReplace ''a'', CallForEachChild None]
     nav_vetoed env0 = Some (nav_vetoed, env0)"
proof -
  have h: "err nav_vetoed = Some (Raised ''vetoed'')" by (simp add: nav_vetoed_def)
  from faulted_calls_are_inert [OF h, of "tree_caps []" "''value''" env0 0 2 "''a''" None
      "[CallReplace ''a'', CallDot ''value'', CallReplace ''a'', CallForEachChild None]"] h
  show ?thesis by simp
qed

text \<open>
  C7. \<open>ClearError\<close> changes the error field only: stack, depth, source and current element
  are those of the faulted navigator, \<open>HasError\<close> is false, and a \<open>Dot\<close> that then resolves
  pushes the child on that same stack.
\<close>

theorem clear_error_resets_only_error:
  "stack (ClearError n) = stack n \<and> Depth (ClearError n) = Depth n \<and>
   Source (ClearError n) = Source n \<and> Current (ClearError n) = Current n \<and>
   \<not> HasError (ClearError n) \<and>
   (Current n = Some cur \<and> prop_ChildAtIndex P cur (Name name) (world env) = (Inr child, w1) \<longrightarrow>
      Dot P name (ClearError n) env =
        Some (\<lparr>stack = stack n @ [child], err = None\<rparr>,
              \<lparr>world = w1, calls = calls env @ [ChildAtIndexCall cur (Name name) (Inr child)]\<rparr>))"
  by (simp add: ClearError_def Depth_def Source_def Current_def HasError_def Dot_def invoke_def)

theorem clear_error_resets_only_error_witness:
  "HasError nav_lost \<and> stack (ClearError nav_lost) = [0, 1, 2] \<and> \<not> HasError (ClearError nav_lost) \<and>
   Current nav_lost = Some 2 \<and>
   prop_ChildAtIndex (tree_caps []) 2 (Name ''value'') (world env0) = (Inr 3, 0) \<and>
   Dot (tree_caps []) ''value'' (ClearError nav_lost) env0 =
     Some (\<lparr>stack = [0, 1, 2, 3], err = None\<rparr>,
           \<lparr>world = 0, calls = [ChildAtIndexCall 2 (Name ''value'') (Inr 3)]\<rparr>)"
proof -
  have h1: "Current nav_lost = Some 2" by (simp add: nav_lost_def Current_def)
  have h2: "prop_ChildAtIndex (tree_caps []) 2 (Name ''value'') (world env0) = (Inr 3, 0)"
    by (simp add: tree_caps_def child_of_def env0_def)
  have h3: "HasError nav_lost" by (simp add: nav_lost_def HasError_def)
  from clear_error_resets_only_error [of nav_lost 2 "tree_caps []" "''value''" env0 3 0] h1 h2 h3
  show ?thesis by (simp add: nav_lost_def env0_def)
qed




text \<open>
  C9. Whatever operations are called on a navigator created by \<open>Navigate p\<close>, in whatever
  order, none of them panics, the stack holds at least one element, its element \<open>0\<close> is
  \<open>p\<close>, which is what \<open>Source\<close> returns, and \<open>Current\<close> returns its last element.
\<close>

theorem stack_never_empty_source_fixed:
  "\<exists>n' env'. call_methods P ms (Navigate p) env = Some (n', env') \<and>
     1 \<le> Depth n' \<and> stack n' ! 0 = p \<and> Source n' = Some p \<and>
     Current n' = Some (last (stack n'))"
proof -
  from call_methods_keep_source [of "Navigate p" P ms env]
  show ?thesis
    by (auto simp: Navigate_def Depth_def Source_def Current_def last_conv_nth Suc_le_eq)
qed

theorem stack_never_empty_source_fixed_witness:
  "\<exists>n' env'. call_methods (tree_caps [1])
       [CallDot ''emails'', CallAt 0, CallDot ''value'', CallDepth, CallReplace ''a@b.com'', CallHasError,
        CallRetract, CallRetract, CallRetract, CallRetract, CallError, CallClearError, CallWhere 9,
        CallForEachChild None, CallRetract, CallSource, CallCurrent, CallAdd ''x'', CallDelete]
       (Navigate 0) env0 = Some (n', env') \<and>
     Depth n' = 1 \<and> Source n' = Some 0 \<and> Current n' = Some 0"
proof -
  let ?ms = "[CallDot ''emails'', CallAt 0, CallDot ''value'', CallDepth, CallReplace ''a@b.com'', CallHasError,
        CallRetract, CallRetract, CallRetract, CallRetract, CallError, CallClearError, CallWhere 9,
        CallForEachChild None, CallRetract, CallSource, CallCurrent, CallAdd ''x'', CallDelete]"
  have run: "map_option (\<lambda>r. Depth (fst r)) (call_methods (tree_caps [1]) ?ms (Navigate 0) env0) = Some 1"
    by (simp add: call_method_def Dot_def At_def Where_def Add_def Replace_def Delete_def delegateMod_def
        ForEachChild_def ClearError_def Retract_def Depth_def Source_def Current_def invoke_def
        Navigate_def tree_caps_def child_of_def write_to_def node_path_def env0_def)
  from stack_never_empty_source_fixed [of "tree_caps [1]" ?ms 0 env0]
  obtain n' env' where a: "call_methods (tree_caps [1]) ?ms (Navigate 0) env0 = Some (n', env')"
    and b: "stack n' ! 0 = 0" "Source n' = Some 0" "Current n' = Some (last (stack n'))"
    by blast
  from a run have d: "Depth n' = 1" by simp
  then have "last (stack n') = stack n' ! 0"
    by (cases "stack n'") (simp_all add: Depth_def)
  with a b d show ?thesis by simp
qed

end
